theory Spec2Isabelle
  imports Complex_Main "HOL-Library.AList" "HOL-Library.Multiset"
begin

section \<open>JavaScript values\<close>

text \<open>
  The dashboard client is JavaScript. A JavaScript number is an IEEE double; the model
  keeps the three special values and idealises every finite double as a real number, so
  rounding and overflow of finite arithmetic are not modelled. Objects are property
  lists read from the front: a property set later shadows an earlier one of the same name.
\<close>

datatype number = Fin real | NaN | PInf | NInf

datatype jsval =
    Undefined
  | Null
  | Bool bool
  | Number number
  | Str string
  | Arr "jsval list"
  | Obj "(string \<times> jsval) list"

abbreviation Num :: "real \<Rightarrow> jsval" where
  "Num x \<equiv> Number (Fin x)"

type_synonym obj = "(string \<times> jsval) list"

text \<open>\<open>o.k\<close>: the value of property \<open>k\<close>, \<open>undefined\<close> when the object has none.\<close>

definition get :: "obj \<Rightarrow> string \<Rightarrow> jsval" where
  "get ob k = (case map_of ob k of None \<Rightarrow> Undefined | Some v \<Rightarrow> v)"

text \<open>\<open>o.k = v\<close> on a copy of the object.\<close>

definition assign :: "string \<Rightarrow> jsval \<Rightarrow> obj \<Rightarrow> obj" where
  "assign k v ob = (k, v) # ob"

text \<open>\<open>{...a, ...b}\<close>: the properties of \<open>b\<close> win over those of \<open>a\<close>.\<close>

definition spread :: "obj \<Rightarrow> obj \<Rightarrow> obj" where
  "spread a b = b @ a"

text \<open>
  \<open>v?.k\<close>: \<open>undefined\<close> on \<open>null\<close> and \<open>undefined\<close>, the property on an object. The
  names read this way are data fields, which no primitive value has.
\<close>

fun optprop :: "jsval \<Rightarrow> string \<Rightarrow> jsval" where
  "optprop (Obj ob) k = get ob k"
| "optprop _ k = Undefined"

text \<open>\<open>a ?? b\<close>\<close>

definition nullish :: "jsval \<Rightarrow> jsval \<Rightarrow> jsval" where
  "nullish a b = (if a = Undefined \<or> a = Null then b else a)"

fun truthy :: "jsval \<Rightarrow> bool" where
  "truthy Undefined = False"
| "truthy Null = False"
| "truthy (Bool b) = b"
| "truthy (Number (Fin x)) = (x \<noteq> 0)"
| "truthy (Number NaN) = False"
| "truthy (Number PInf) = True"
| "truthy (Number NInf) = True"
| "truthy (Str s) = (s \<noteq> [])"
| "truthy (Arr xs) = True"
| "truthy (Obj ob) = True"

text \<open>\<open>a || b\<close>\<close>

definition js_or :: "jsval \<Rightarrow> jsval \<Rightarrow> jsval" where
  "js_or a b = (if truthy a then a else b)"

text \<open>\<open>Number.isFinite(v)\<close>: true for a finite number only, with no coercion.\<close>

fun isFinite :: "jsval \<Rightarrow> bool" where
  "isFinite (Number (Fin x)) = True"
| "isFinite _ = False"

subsection \<open>Arithmetic\<close>

text \<open>
  \<open>ToNumber\<close> on the values that reach an arithmetic operator in the modelled code:
  numbers, \<open>undefined\<close>, \<open>null\<close> and booleans. Every operand of the modelled code is a
  number by a \<open>Number.isFinite\<close> guard or by construction, so the parsing of numeric
  strings is left out: a string or an object counts as \<open>NaN\<close>.
\<close>

fun toNumber :: "jsval \<Rightarrow> number" where
  "toNumber (Number n) = n"
| "toNumber Undefined = NaN"
| "toNumber Null = Fin 0"
| "toNumber (Bool b) = Fin (if b then 1 else 0)"
| "toNumber _ = NaN"

fun n_neg :: "number \<Rightarrow> number" where
  "n_neg (Fin x) = Fin (- x)"
| "n_neg NaN = NaN"
| "n_neg PInf = NInf"
| "n_neg NInf = PInf"

fun n_add :: "number \<Rightarrow> number \<Rightarrow> number" where
  "n_add (Fin x) (Fin y) = Fin (x + y)"
| "n_add NaN _ = NaN"
| "n_add _ NaN = NaN"
| "n_add PInf NInf = NaN"
| "n_add NInf PInf = NaN"
| "n_add PInf _ = PInf"
| "n_add _ PInf = PInf"
| "n_add NInf _ = NInf"
| "n_add _ NInf = NInf"

definition n_sub :: "number \<Rightarrow> number \<Rightarrow> number" where
  "n_sub a b = n_add a (n_neg b)"

text \<open>The sign of a number, for the products and quotients with an infinity (no negative zero).\<close>

fun n_sign :: "number \<Rightarrow> int" where
  "n_sign (Fin x) = (if x < 0 then -1 else if x = 0 then 0 else 1)"
| "n_sign NaN = 0"
| "n_sign PInf = 1"
| "n_sign NInf = -1"

definition signed_inf :: "int \<Rightarrow> number" where
  "signed_inf s = (if s = 0 then NaN else if 0 < s then PInf else NInf)"


fun n_div :: "number \<Rightarrow> number \<Rightarrow> number" where
  "n_div (Fin x) (Fin y) = (if y = 0 then signed_inf (n_sign (Fin x)) else Fin (x / y))"
| "n_div NaN _ = NaN"
| "n_div _ NaN = NaN"
| "n_div (Fin x) _ = Fin 0"
| "n_div a (Fin y) = signed_inf (n_sign a * (if y < 0 then -1 else 1))"
| "n_div _ _ = NaN"

text \<open>\<open>a < b\<close> on numbers: false as soon as one side is \<open>NaN\<close>.\<close>

fun n_lt :: "number \<Rightarrow> number \<Rightarrow> bool" where
  "n_lt (Fin x) (Fin y) = (x < y)"
| "n_lt NaN _ = False"
| "n_lt _ NaN = False"
| "n_lt PInf _ = False"
| "n_lt _ NInf = False"
| "n_lt _ _ = True"

definition n_le :: "number \<Rightarrow> number \<Rightarrow> bool" where
  "n_le a b = (a \<noteq> NaN \<and> b \<noteq> NaN \<and> \<not> n_lt b a)"

text \<open>\<open>Math.max\<close> and \<open>Math.min\<close> of two numbers: \<open>NaN\<close> as soon as one is.\<close>

definition n_max :: "number \<Rightarrow> number \<Rightarrow> number" where
  "n_max a b = (if a = NaN \<or> b = NaN then NaN else if n_lt a b then b else a)"

definition n_min :: "number \<Rightarrow> number \<Rightarrow> number" where
  "n_min a b = (if a = NaN \<or> b = NaN then NaN else if n_lt b a then b else a)"

definition js_add :: "jsval \<Rightarrow> jsval \<Rightarrow> jsval" where
  "js_add a b = Number (n_add (toNumber a) (toNumber b))"

definition js_sub :: "jsval \<Rightarrow> jsval \<Rightarrow> jsval" where
  "js_sub a b = Number (n_sub (toNumber a) (toNumber b))"


definition js_div :: "jsval \<Rightarrow> jsval \<Rightarrow> jsval" where
  "js_div a b = Number (n_div (toNumber a) (toNumber b))"

definition js_gt :: "jsval \<Rightarrow> jsval \<Rightarrow> bool" where
  "js_gt a b = n_lt (toNumber b) (toNumber a)"

definition js_le :: "jsval \<Rightarrow> jsval \<Rightarrow> bool" where
  "js_le a b = n_le (toNumber a) (toNumber b)"

definition js_ge :: "jsval \<Rightarrow> jsval \<Rightarrow> bool" where
  "js_ge a b = n_le (toNumber b) (toNumber a)"

definition Math_max :: "jsval \<Rightarrow> jsval \<Rightarrow> jsval" where
  "Math_max a b = Number (n_max (toNumber a) (toNumber b))"

definition Math_min :: "jsval \<Rightarrow> jsval \<Rightarrow> jsval" where
  "Math_min a b = Number (n_min (toNumber a) (toNumber b))"

text \<open>\<open>clamp = (value, min, max) => Math.min(max, Math.max(min, value))\<close>\<close>

definition clamp :: "jsval \<Rightarrow> jsval \<Rightarrow> jsval \<Rightarrow> jsval" where
  "clamp v lo hi = Math_min hi (Math_max lo v)"

subsection \<open>Strings\<close>

text \<open>
  How JavaScript prints a finite number (\<open>Number::toString\<close>) depends on the binary
  representation of the double; it is a parameter \<open>ns\<close> of every function that turns
  a value into text.
\<close>

type_synonym numfmt = "real \<Rightarrow> string"

fun join :: "string \<Rightarrow> string list \<Rightarrow> string" where
  "join sep [] = []"
| "join sep [s] = s"
| "join sep (s # t # ss) = s @ sep @ join sep (t # ss)"

text \<open>\<open>String(v)\<close>, as a template literal \<open>`${v}`\<close> applies it.\<close>

fun toStr :: "numfmt \<Rightarrow> jsval \<Rightarrow> string" where
  "toStr ns Undefined = ''undefined''"
| "toStr ns Null = ''null''"
| "toStr ns (Bool b) = (if b then ''true'' else ''false'')"
| "toStr ns (Number (Fin x)) = ns x"
| "toStr ns (Number NaN) = ''NaN''"
| "toStr ns (Number PInf) = ''Infinity''"
| "toStr ns (Number NInf) = ''-Infinity''"
| "toStr ns (Str s) = s"
| "toStr ns (Arr xs) =
     join '','' (map (\<lambda>v. if v = Undefined \<or> v = Null then [] else toStr ns v) xs)"
| "toStr ns (Obj ob) = ''[object Object]''"

section \<open>World map: \<open>aggregateFlows\<close> and \<open>WorldMap\<close>\<close>

text \<open>
  A JavaScript \<open>Map\<close> keeps its keys in insertion order: it is an association list with
  distinct keys. \<open>map.get\<close> is \<open>map_of\<close>, \<open>map.set\<close> is \<open>AList.update\<close> (the value is
  replaced in place, a new key goes to the end), \<open>map.values()\<close> is \<open>map snd\<close>.
\<close>

type_synonym jsmap = "(string \<times> obj) list"

text \<open>
  \<open>array.sort(cmp)\<close>, a stable sort: an element stays in front of a later one unless the
  comparator's result for the pair is greater than 0 (a \<open>NaN\<close> result counts as 0).
\<close>

fun insert_by :: "('a \<Rightarrow> 'a \<Rightarrow> jsval) \<Rightarrow> 'a \<Rightarrow> 'a list \<Rightarrow> 'a list" where
  "insert_by cmp x [] = [x]"
| "insert_by cmp x (y # ys) =
     (if js_gt (cmp x y) (Num 0) then y # insert_by cmp x ys else x # y # ys)"

definition js_sort :: "('a \<Rightarrow> 'a \<Rightarrow> jsval) \<Rightarrow> 'a list \<Rightarrow> 'a list" where
  "js_sort cmp xs = foldr (insert_by cmp) xs []"

text \<open>The key \<open>`${flow.direction}-${flow.ip}`\<close>.\<close>

definition flowKey :: "numfmt \<Rightarrow> obj \<Rightarrow> string" where
  "flowKey ns flow = toStr ns (get flow ''direction'') @ ''-'' @ toStr ns (get flow ''ip'')"

text \<open>
  The body of \<open>flows.forEach\<close> in \<open>aggregateFlows\<close>. A flow without finite coordinates is
  skipped. The entry of a new key (\<open>newEntry\<close>) is a copy of the flow with \<open>mb_s\<close>,
  \<open>bytes\<close> and \<open>fade\<close> reset to 0; \<open>accumulate\<close> is the update of the entry, which is
  then stored under the key.
\<close>

definition accumulate :: "obj \<Rightarrow> obj \<Rightarrow> obj" where
  "accumulate current flow =
     (let flowMb = (if isFinite (get flow ''mb_s'') then get flow ''mb_s'' else Num 0);
          flowBytes = (if isFinite (get flow ''bytes'') then get flow ''bytes'' else Num 0);
          flowFade = (if isFinite (get flow ''fade'') then get flow ''fade'' else Num 1);
          c1 = assign ''mb_s'' (js_add (get current ''mb_s'') flowMb) current;
          c2 = assign ''bytes'' (js_add (get c1 ''bytes'') flowBytes) c1
      in assign ''fade'' (Math_max (js_or (get c2 ''fade'') (Num 0)) flowFade) c2)"

definition newEntry :: "obj \<Rightarrow> obj" where
  "newEntry flow = spread flow [(''mb_s'', Num 0), (''bytes'', Num 0), (''fade'', Num 0)]"

definition aggregateStep :: "numfmt \<Rightarrow> jsmap \<Rightarrow> obj \<Rightarrow> jsmap" where
  "aggregateStep ns m flow =
     (if \<not> isFinite (get flow ''lat'') \<or> \<not> isFinite (get flow ''lon'') then m
      else
        let key = flowKey ns flow;
            current = (case map_of m key of Some c \<Rightarrow> c | None \<Rightarrow> newEntry flow)
        in AList.update key (accumulate current flow) m)"

definition aggregateFlows :: "numfmt \<Rightarrow> obj list \<Rightarrow> obj list" where
  "aggregateFlows ns flows =
     js_sort (\<lambda>a b. js_sub (get b ''mb_s'') (get a ''mb_s''))
       (map snd (foldl (aggregateStep ns) [] flows))"


text \<open>
  For the statements: a flow is drawable when both coordinates are finite numbers, and
  the amount a flow contributes to a sum is its field when that is a finite number and 0
  otherwise (the guards \<open>flowMb\<close> and \<open>flowBytes\<close>).
\<close>

definition drawable :: "obj \<Rightarrow> bool" where
  "drawable flow = (isFinite (get flow ''lat'') \<and> isFinite (get flow ''lon''))"

fun amount :: "jsval \<Rightarrow> real" where
  "amount (Number (Fin x)) = x"
| "amount _ = 0"

definition total_of :: "string \<Rightarrow> obj list \<Rightarrow> real" where
  "total_of field flows = sum_list (map (\<lambda>f. amount (get f field)) flows)"

section \<open>App: the websocket message handler\<close>

text \<open>
  The repository holds two versions of \<open>App\<close>. The model follows the one that imports the
  formatters and the gauge as modules: it keeps resolved coordinates in the flow cache and
  lets a flow linger for 20000 ms. (The other version defines them inline, overwrites the
  coordinates and lingers for 10000 ms.)
\<close>

definition MAX_POINTS :: nat where
  "MAX_POINTS = 60"

definition MAP_LINGER_MS :: real where
  "MAP_LINGER_MS = 20000"

text \<open>
  The React state the handler writes. \<open>flowNow\<close> starts as \<open>Date.now()\<close> at mount, the
  histories and the flow cache start empty, \<open>metrics\<close> starts as \<open>null\<close>.
\<close>

record app_state =
  metrics :: jsval
  cpuHistory :: "obj list"
  netHistory :: "obj list"
  flowCache :: jsmap
  flowNow :: real

definition init_state :: "real \<Rightarrow> app_state" where
  "init_state t0 =
     \<lparr>metrics = Null, cpuHistory = [], netHistory = [], flowCache = [], flowNow = t0\<rparr>"

text \<open>
  One message: the parsed JSON \<open>data\<close> of a snapshot, and what the environment answers
  during the handler, the clock \<open>Date.now()\<close> and the locale's time text of
  \<open>data.timestamp\<close>. The backend publishes one JSON object per message. A message that is
  not JSON, or is the JSON \<open>null\<close>, makes the handler raise before it writes any state:
  it is not an event here.
\<close>

record event =
  ev_data :: jsval
  ev_now :: real
  ev_clock :: string

text \<open>
  \<open>flows = Array.isArray(data.network_flows) ? data.network_flows : []\<close>. The elements
  are the flow objects of the snapshot. An element that is not an object is read as an
  object without properties, which is what the handler sees of a number or a boolean
  (a \<open>null\<close> element, on which the handler raises, is outside the model).
\<close>

fun objOf :: "jsval \<Rightarrow> obj" where
  "objOf (Obj ob) = ob"
| "objOf _ = []"

definition flowsOf :: "jsval \<Rightarrow> obj list" where
  "flowsOf data = (case optprop data ''network_flows'' of Arr xs \<Rightarrow> map objOf xs | _ \<Rightarrow> [])"

text \<open>The cache key \<open>`${flow.direction || "unknown"}-${flow.ip || "unknown"}`\<close>.\<close>

definition cacheKey :: "numfmt \<Rightarrow> obj \<Rightarrow> string" where
  "cacheKey ns flow =
     (let direction = js_or (get flow ''direction'') (Str ''unknown'');
          ip = js_or (get flow ''ip'') (Str ''unknown'')
      in toStr ns direction @ ''-'' @ toStr ns ip)"

text \<open>
  The body of \<open>flows.forEach\<close> in the \<open>setFlowCache\<close> updater. \<open>mergeEntry\<close> is the object
  stored under the key: the flow merged over the cached entry \<open>existing\<close> of its key and
  stamped with \<open>lastSeen\<close>; when there is a cached entry and a merged coordinate is not a
  finite number, the cached entry's coordinate is put back.
\<close>

definition mergeEntry :: "real \<Rightarrow> obj option \<Rightarrow> obj \<Rightarrow> obj" where
  "mergeEntry nowMs existing flow =
     (let merged = assign ''lastSeen'' (Num nowMs)
                     (spread (case existing of None \<Rightarrow> [] | Some e \<Rightarrow> e) flow)
      in case existing of
           None \<Rightarrow> merged
         | Some e \<Rightarrow>
             let m1 = (if \<not> isFinite (get merged ''lat'')
                       then assign ''lat'' (get e ''lat'') merged else merged)
             in if \<not> isFinite (get m1 ''lon'')
                then assign ''lon'' (get e ''lon'') m1 else m1)"

definition mergeFlow :: "numfmt \<Rightarrow> real \<Rightarrow> jsmap \<Rightarrow> obj \<Rightarrow> jsmap" where
  "mergeFlow ns nowMs next flow =
     (let key = cacheKey ns flow;
          existing = map_of next key
      in AList.update key (mergeEntry nowMs existing flow) next)"

text \<open>
  The \<open>for (const [key, value] of next)\<close> loop: an entry whose \<open>lastSeen\<close> is more than
  \<open>MAP_LINGER_MS\<close> before \<open>nowMs\<close> is deleted.
\<close>

definition expired :: "real \<Rightarrow> obj \<Rightarrow> bool" where
  "expired nowMs v =
     (let lastSeen = js_or (get v ''lastSeen'') (Num 0)
      in js_gt (js_sub (Num nowMs) lastSeen) (Num MAP_LINGER_MS))"

definition prune :: "real \<Rightarrow> jsmap \<Rightarrow> jsmap" where
  "prune nowMs next = filter (\<lambda>(key, v). \<not> expired nowMs v) next"

definition updateFlowCache :: "numfmt \<Rightarrow> real \<Rightarrow> obj list \<Rightarrow> jsmap \<Rightarrow> jsmap" where
  "updateFlowCache ns nowMs flows prev = prune nowMs (foldl (mergeFlow ns nowMs) prev flows)"

text \<open>\<open>[...prev, point].slice(-MAX_POINTS)\<close>\<close>

definition pushPoint :: "obj list \<Rightarrow> obj \<Rightarrow> obj list" where
  "pushPoint prev point = (let next = prev @ [point] in drop (length next - MAX_POINTS) next)"

definition cpuPoint :: "event \<Rightarrow> obj" where
  "cpuPoint ev =
     [(''time'', Str (ev_clock ev)),
      (''cpu'', nullish (optprop (optprop (ev_data ev) ''cpu'') ''total'') (Num 0))]"

definition netPoint :: "event \<Rightarrow> obj" where
  "netPoint ev =
     [(''time'', Str (ev_clock ev)),
      (''download'', nullish (optprop (optprop (ev_data ev) ''network'') ''download_mb_s'') (Num 0)),
      (''upload'', nullish (optprop (optprop (ev_data ev) ''network'') ''upload_mb_s'') (Num 0))]"

text \<open>\<open>socket.onmessage\<close>\<close>

definition onmessage :: "numfmt \<Rightarrow> app_state \<Rightarrow> event \<Rightarrow> app_state" where
  "onmessage ns st ev =
     st\<lparr>metrics := ev_data ev,
        flowNow := ev_now ev,
        flowCache := updateFlowCache ns (ev_now ev) (flowsOf (ev_data ev)) (flowCache st),
        cpuHistory := pushPoint (cpuHistory st) (cpuPoint ev),
        netHistory := pushPoint (netHistory st) (netPoint ev)\<rparr>"

text \<open>The state after a sequence of messages, from the state at mount.\<close>

definition run :: "numfmt \<Rightarrow> real \<Rightarrow> event list \<Rightarrow> app_state" where
  "run ns t0 evs = foldl (onmessage ns) (init_state t0) evs"



text \<open>
  The invariant of the loop of \<open>aggregateFlows\<close>, for the proofs: after the flows \<open>seen\<close>,
  the map holds one entry for each key of a drawable flow, and the entry's \<open>mb_s\<close> and
  \<open>bytes\<close> are the sums over the drawable flows of that key.
\<close>

definition agg_inv :: "numfmt \<Rightarrow> obj list \<Rightarrow> jsmap \<Rightarrow> bool" where
  "agg_inv ns seen m \<longleftrightarrow>
     distinct (map fst m) \<and>
     (\<forall>k e. map_of m k = Some e \<longrightarrow>
        flowKey ns e = k \<and>
        get e ''mb_s'' = Num (total_of ''mb_s'' (filter (\<lambda>f. drawable f \<and> flowKey ns f = k) seen)) \<and>
        get e ''bytes'' = Num (total_of ''bytes'' (filter (\<lambda>f. drawable f \<and> flowKey ns f = k) seen))) \<and>
     (\<forall>f \<in> set seen. drawable f \<longrightarrow> map_of m (flowKey ns f) \<noteq> None)"

text \<open>
  For the statements about the flow cache: the coordinates of an entry are paired when
  \<open>lat\<close> is a finite number exactly when \<open>lon\<close> is; a cache is stamped when every entry's
  \<open>lastSeen\<close> is a finite number.
\<close>

definition paired :: "obj \<Rightarrow> bool" where
  "paired f \<longleftrightarrow> (isFinite (get f ''lat'') \<longleftrightarrow> isFinite (get f ''lon''))"


text \<open>
  For the statements about flow identity: a flow record has the direction \<open>"outbound"\<close> or
  \<open>"inbound"\<close> and a non-empty string as ip, and its identity is the pair of the two
  fields. Both keys are functions of the identity (\<open>key_of\<close>, \<open>cache_key_of\<close>); a cache
  is keyed when every entry is a flow record stored under its own cache key.
\<close>

definition flow_record :: "obj \<Rightarrow> bool" where
  "flow_record f \<longleftrightarrow>
     (get f ''direction'' = Str ''outbound'' \<or> get f ''direction'' = Str ''inbound'') \<and>
     (\<exists>s. get f ''ip'' = Str s \<and> s \<noteq> [])"

definition identity :: "obj \<Rightarrow> jsval \<times> jsval" where
  "identity f = (get f ''direction'', get f ''ip'')"

definition key_of :: "numfmt \<Rightarrow> jsval \<times> jsval \<Rightarrow> string" where
  "key_of ns i = toStr ns (fst i) @ ''-'' @ toStr ns (snd i)"

definition cache_key_of :: "numfmt \<Rightarrow> jsval \<times> jsval \<Rightarrow> string" where
  "cache_key_of ns i =
     toStr ns (js_or (fst i) (Str ''unknown'')) @ ''-'' @ toStr ns (js_or (snd i) (Str ''unknown''))"

definition keyed :: "numfmt \<Rightarrow> jsmap \<Rightarrow> bool" where
  "keyed ns c = (\<forall>p \<in> set c. flow_record (snd p) \<and> fst p = cacheKey ns (snd p))"

section \<open>Formatters\<close>

text \<open>The decimal digits of a natural number.\<close>

definition digit_char :: "nat \<Rightarrow> char" where
  "digit_char d = ''0123456789'' ! d"

fun digits :: "nat \<Rightarrow> string" where
  "digits n = (if n < 10 then [digit_char n] else digits (n div 10) @ [digit_char (n mod 10)])"

declare digits.simps [simp del]










section \<open>EnergyGauge\<close>

definition ENERGY_MAX_WATTS :: real where
  "ENERGY_MAX_WATTS = 30"

definition safeWattage :: "jsval \<Rightarrow> jsval" where
  "safeWattage wattage = (if isFinite wattage then wattage else Num 0)"

definition percent :: "jsval \<Rightarrow> jsval" where
  "percent wattage = clamp (js_div (safeWattage wattage) (Num ENERGY_MAX_WATTS)) (Num 0) (Num 1)"

definition energyColor :: "jsval \<Rightarrow> string" where
  "energyColor wattage =
     (if js_le (safeWattage wattage) (Num 6) then ''#22c55e''
      else if js_le (safeWattage wattage) (Num 15) then ''#f59e0b'' else ''#ef4444'')"


definition gaugeLabel :: "jsval \<Rightarrow> string" where
  "gaugeLabel wattage =
     (if isFinite wattage
      then (if js_le (safeWattage wattage) (Num 6) then ''Low''
            else if js_le (safeWattage wattage) (Num 15) then ''Moderate'' else ''High'')
      else ''Unavailable'')"

section \<open>App: the readings on display\<close>



























section \<open>App: the capture summary\<close>













section \<open>Geolocation resolver\<close>

text \<open>
  Modelled from the spec: the Geolocation Resolver (section 4.4) and its cache (the
  GeoCacheEntry of section 3) belong to the backend, whose code is not among the sources.
  The cache maps an address to coordinates and country, or to a negative marker that
  forbids a retry before its time.
\<close>

datatype geo_entry = Located real real string | Failed real

text \<open>
  Modelled from the spec: the state of the resolver. \<open>in_flight\<close> holds, for each address
  with an outstanding lookup, the callers attached to it; \<open>lookups\<close> and \<open>completed\<close> are
  the logs of the outbound lookup requests issued and finished. Callers run as tasks of
  one scheduler: a call of \<open>resolve\<close> and a completion are atomic steps, and concurrent
  callers are steps in some order.
\<close>

record resolver =
  geo_cache :: "(string \<times> geo_entry) list"
  in_flight :: "(string \<times> nat list) list"
  lookups :: "string list"
  completed :: "string list"

definition resolver0 :: resolver where
  "resolver0 = \<lparr>geo_cache = [], in_flight = [], lookups = [], completed = []\<rparr>"

datatype answer = Known geo_entry | NotYet

text \<open>
  Modelled from the spec: "concurrent callers for the same IP attach to the same in-flight
  request rather than issuing duplicate network calls"; without a request in flight,
  "schedules exactly one background lookup".
\<close>

definition attach :: "nat \<Rightarrow> string \<Rightarrow> resolver \<Rightarrow> resolver" where
  "attach caller ip r =
     (case map_of (in_flight r) ip of
        Some waiting \<Rightarrow> r\<lparr>in_flight := AList.update ip (waiting @ [caller]) (in_flight r)\<rparr>
      | None \<Rightarrow> r\<lparr>in_flight := AList.update ip [caller] (in_flight r),
                   lookups := lookups r @ [ip]\<rparr>)"

text \<open>
  Modelled from the spec: "resolve(ip) -> cached value immediately if present; otherwise
  schedules exactly one background lookup and returns not yet resolved". A negative
  marker is a cached value until its time has passed.
\<close>

definition resolve :: "real \<Rightarrow> nat \<Rightarrow> string \<Rightarrow> resolver \<Rightarrow> answer \<times> resolver" where
  "resolve now caller ip r =
     (case map_of (geo_cache r) ip of
        Some (Located la lo c) \<Rightarrow> (Known (Located la lo c), r)
      | Some (Failed until) \<Rightarrow>
          if now < until then (Known (Failed until), r) else (NotYet, attach caller ip r)
      | None \<Rightarrow> (NotYet, attach caller ip r))"

text \<open>
  Modelled from the spec: the completion of a lookup, after the provider list has been
  tried. A success is cached for good, a total failure is cached as a negative marker
  with the cooldown; the request leaves \<open>in_flight\<close> and every attached caller receives
  the entry.
\<close>

datatype outcome = Found real real string | Unreachable

fun entry_of :: "real \<Rightarrow> real \<Rightarrow> outcome \<Rightarrow> geo_entry" where
  "entry_of cooldown now (Found la lo c) = Located la lo c"
| "entry_of cooldown now Unreachable = Failed (now + cooldown)"

definition complete ::
  "real \<Rightarrow> real \<Rightarrow> string \<Rightarrow> outcome \<Rightarrow> resolver \<Rightarrow> (nat \<times> geo_entry) list \<times> resolver" where
  "complete cooldown now ip out r =
     (case map_of (in_flight r) ip of
        None \<Rightarrow> ([], r)
      | Some waiting \<Rightarrow>
          (map (\<lambda>c. (c, entry_of cooldown now out)) waiting,
           r\<lparr>geo_cache := AList.update ip (entry_of cooldown now out) (geo_cache r),
             in_flight := AList.delete ip (in_flight r),
             completed := completed r @ [ip]\<rparr>))"

text \<open>Modelled from the spec: the runs of the resolver, as sequences of atomic steps.\<close>

datatype geo_event = Resolve real nat string | Complete real string outcome

fun geo_step :: "real \<Rightarrow> resolver \<Rightarrow> geo_event \<Rightarrow> resolver" where
  "geo_step cooldown r (Resolve now caller ip) = snd (resolve now caller ip r)"
| "geo_step cooldown r (Complete now ip out) = snd (complete cooldown now ip out r)"

definition exec :: "real \<Rightarrow> geo_event list \<Rightarrow> resolver" where
  "exec cooldown evs = foldl (geo_step cooldown) resolver0 evs"

text \<open>
  Modelled from the spec: \<open>N\<close> requests for one address, the calls of \<open>resolve\<close> by the
  callers \<open>cs\<close>, each with its time.
\<close>

definition resolve_all :: "string \<Rightarrow> resolver \<Rightarrow> (real \<times> nat) list \<Rightarrow> resolver" where
  "resolve_all ip r cs = foldl (\<lambda>r (t, c). snd (resolve t c ip r)) r cs"

text \<open>
  The invariant of the resolver, for the proofs: an address has one more lookup issued
  than finished exactly when a request for it is in flight.
\<close>

definition geo_inv :: "resolver \<Rightarrow> bool" where
  "geo_inv r \<longleftrightarrow>
     (\<forall>ip. count_list (lookups r) ip =
        count_list (completed r) ip + (if map_of (in_flight r) ip = None then 0 else 1))"

section \<open>Example inputs\<close>

text \<open>
  A number format for the examples: the decimal digits of an integer, which is what
  JavaScript prints for an integer below \<open>10^21\<close>.
\<close>

definition intFormat :: numfmt where
  "intFormat x = (if x < 0 then ''-'' else []) @ digits (nat \<lfloor>\<bar>x\<bar>\<rfloor>)"

text \<open>Two outbound records of one address and an inbound record of the same address.\<close>

definition flowA :: obj where
  "flowA = [(''direction'', Str ''outbound''), (''ip'', Str ''203.0.113.5''),
            (''lat'', Num 40.7), (''lon'', Num (- 74)), (''mb_s'', Num 0.25), (''bytes'', Num 1500)]"

definition flowB :: obj where
  "flowB = [(''direction'', Str ''outbound''), (''ip'', Str ''203.0.113.5''),
            (''lat'', Num 40.7), (''lon'', Num (- 74)), (''mb_s'', Num 0.5), (''bytes'', Num 500)]"

definition flowC :: obj where
  "flowC = [(''direction'', Str ''inbound''), (''ip'', Str ''203.0.113.5''),
            (''lat'', Num 40.7), (''lon'', Num (- 74)), (''mb_s'', Num 2), (''bytes'', Num 1000)]"


text \<open>A record without coordinates yet, and two messages.\<close>

definition pendingA :: obj where
  "pendingA = [(''direction'', Str ''outbound''), (''ip'', Str ''203.0.113.5''),
               (''lat'', Null), (''lon'', Null), (''mb_s'', Num 0.125), (''bytes'', Num 700)]"

definition snapshot1 :: event where
  "snapshot1 = \<lparr>ev_data = Obj [(''network_flows'', Arr [Obj flowA, Obj flowC])],
                 ev_now = 1000, ev_clock = ''10:00:00''\<rparr>"

definition snapshot2 :: event where
  "snapshot2 = \<lparr>ev_data = Obj [(''network_flows'', Arr [Obj pendingA])],
                 ev_now = 2000, ev_clock = ''10:00:01''\<rparr>"

text \<open>The inbound record of the same address, without coordinates too.\<close>

definition pendingIn :: obj where
  "pendingIn = [(''direction'', Str ''inbound''), (''ip'', Str ''203.0.113.5''),
                (''lat'', Null), (''lon'', Null), (''mb_s'', Num 0.5), (''bytes'', Num 900)]"



section \<open>Properties of the flow aggregation\<close>

lemma get_assign [simp]: "get (assign k v ob) k' = (if k' = k then v else get ob k')"
  by (simp add: get_def assign_def)

lemma get_Cons [simp]: "get ((k, v) # ob) k' = (if k' = k then v else get ob k')"
  by (simp add: get_def)

lemma get_Nil [simp]: "get [] k = Undefined"
  by (simp add: get_def)

lemma get_spread: "get (spread a b) k = (case map_of b k of Some v \<Rightarrow> v | None \<Rightarrow> get a k)"
  by (simp add: get_def spread_def map_add_def split: option.splits)

lemma isFinite_iff: "isFinite v \<longleftrightarrow> (\<exists>x. v = Num x)"
  by (cases v rule: isFinite.cases) simp_all

lemma guard_amount: "(if isFinite v then v else Num 0) = Num (amount v)"
  by (cases v rule: amount.cases) simp_all

lemma js_add_Num [simp]: "js_add (Num x) (Num y) = Num (x + y)"
  by (simp add: js_add_def)

lemma js_sub_Num [simp]: "js_sub (Num x) (Num y) = Num (x - y)"
  by (simp add: js_sub_def n_sub_def)

lemma js_gt_Num [simp]: "js_gt (Num x) (Num y) \<longleftrightarrow> y < x"
  by (simp add: js_gt_def)

lemma js_ge_Num [simp]: "js_ge (Num x) (Num y) \<longleftrightarrow> y \<le> x"
  by (auto simp add: js_ge_def n_le_def)

lemma js_le_Num [simp]: "js_le (Num x) (Num y) \<longleftrightarrow> x \<le> y"
  by (auto simp add: js_le_def n_le_def)

lemma total_of_Nil [simp]: "total_of field [] = 0"
  by (simp add: total_of_def)

lemma total_of_Cons [simp]: "total_of field (f # fs) = amount (get f field) + total_of field fs"
  by (simp add: total_of_def)

lemma total_of_append [simp]: "total_of field (xs @ ys) = total_of field xs + total_of field ys"
  by (simp add: total_of_def)

lemma aggregateStep_skip: "\<not> drawable f \<Longrightarrow> aggregateStep ns m f = m"
  by (auto simp add: aggregateStep_def drawable_def)

lemma accumulate_key [simp]: "flowKey ns (accumulate c f) = flowKey ns c"
  by (simp add: accumulate_def Let_def flowKey_def)

lemma accumulate_mb:
  "get c ''mb_s'' = Num a \<Longrightarrow> get (accumulate c f) ''mb_s'' = Num (a + amount (get f ''mb_s''))"
  by (simp add: accumulate_def Let_def guard_amount)

lemma accumulate_bytes:
  "get c ''bytes'' = Num b \<Longrightarrow> get (accumulate c f) ''bytes'' = Num (b + amount (get f ''bytes''))"
  by (simp add: accumulate_def Let_def guard_amount)

lemma newEntry_key [simp]: "flowKey ns (newEntry f) = flowKey ns f"
  by (simp add: newEntry_def flowKey_def get_spread)

lemma newEntry_zero [simp]: "get (newEntry f) ''mb_s'' = Num 0" "get (newEntry f) ''bytes'' = Num 0"
  by (simp_all add: newEntry_def get_spread)

lemma aggregateStep_drawable:
  "drawable f \<Longrightarrow> aggregateStep ns m f =
     AList.update (flowKey ns f)
       (accumulate (case map_of m (flowKey ns f) of Some c \<Rightarrow> c | None \<Rightarrow> newEntry f) f) m"
  by (simp add: aggregateStep_def drawable_def Let_def newEntry_def split: option.splits)

lemma agg_inv_step:
  assumes inv: "agg_inv ns seen m"
  shows "agg_inv ns (seen @ [f]) (aggregateStep ns m f)"
proof (cases "drawable f")
  case False
  with inv show ?thesis
    by (simp add: aggregateStep_skip agg_inv_def del: map_of_eq_Some_iff)
next
  case True
  let ?k = "flowKey ns f"
  let ?c = "case map_of m ?k of Some c \<Rightarrow> c | None \<Rightarrow> newEntry f"
  let ?grp = "\<lambda>k xs. filter (\<lambda>g. drawable g \<and> flowKey ns g = k) xs"
  have step: "aggregateStep ns m f = AList.update ?k (accumulate ?c f) m"
    by (rule aggregateStep_drawable [OF True])
  have c: "flowKey ns ?c = ?k \<and> get ?c ''mb_s'' = Num (total_of ''mb_s'' (?grp ?k seen))
      \<and> get ?c ''bytes'' = Num (total_of ''bytes'' (?grp ?k seen))"
  proof (cases "map_of m ?k")
    case None
    have "?grp ?k seen = []"
      using inv None by (auto simp add: agg_inv_def filter_empty_conv simp del: map_of_eq_Some_iff)
    with None show ?thesis by simp
  next
    case (Some c)
    with inv show ?thesis by (simp add: agg_inv_def del: map_of_eq_Some_iff)
  qed
  have d: "distinct (map fst (aggregateStep ns m f))"
    using inv by (simp add: step distinct_update agg_inv_def)
  have e: "flowKey ns e = k \<and>
        get e ''mb_s'' = Num (total_of ''mb_s'' (?grp k (seen @ [f]))) \<and>
        get e ''bytes'' = Num (total_of ''bytes'' (?grp k (seen @ [f])))"
    if "map_of (aggregateStep ns m f) k = Some e" for k e
  proof (cases "k = ?k")
    case True
    with that have "e = accumulate ?c f" by (simp add: step update_conv')
    with c True \<open>drawable f\<close> show ?thesis
      by (simp add: accumulate_mb accumulate_bytes)
  next
    case False
    with that have "map_of m k = Some e" by (simp add: step update_conv')
    with inv False show ?thesis
      by (auto simp add: agg_inv_def simp del: map_of_eq_Some_iff)
  qed
  have g: "map_of (aggregateStep ns m f) (flowKey ns h) \<noteq> None"
    if "h \<in> set (seen @ [f])" "drawable h" for h
    using that inv by (auto simp add: step update_conv' agg_inv_def simp del: map_of_eq_Some_iff)
  show ?thesis
    unfolding agg_inv_def using d e g by blast
qed

lemma agg_inv_foldl:
  "agg_inv ns seen m \<Longrightarrow> agg_inv ns (seen @ flows) (foldl (aggregateStep ns) m flows)"
proof (induction flows arbitrary: seen m)
  case Nil
  then show ?case by simp
next
  case (Cons f flows)
  from Cons.IH [OF agg_inv_step [OF Cons.prems, of f]] show ?case by simp
qed

lemma agg_inv_init: "agg_inv ns [] []"
  by (simp add: agg_inv_def)

lemma agg_inv_all: "agg_inv ns flows (foldl (aggregateStep ns) [] flows)"
  using agg_inv_foldl [OF agg_inv_init, of ns flows] by simp


lemma set_insert_by [simp]: "set (insert_by cmp x ys) = insert x (set ys)"
  by (induction ys) auto

lemma mset_insert_by [simp]: "mset (insert_by cmp x ys) = add_mset x (mset ys)"
  by (induction ys) auto

lemma length_insert_by [simp]: "length (insert_by cmp x ys) = Suc (length ys)"
  by (induction ys) auto

lemma js_sort_Nil [simp]: "js_sort cmp [] = []"
  by (simp add: js_sort_def)

lemma js_sort_Cons [simp]: "js_sort cmp (x # xs) = insert_by cmp x (js_sort cmp xs)"
  by (simp add: js_sort_def)

lemma mset_js_sort [simp]: "mset (js_sort cmp xs) = mset xs"
  by (induction xs) simp_all

lemma set_js_sort [simp]: "set (js_sort cmp xs) = set xs"
  by (induction xs) simp_all

lemma length_js_sort [simp]: "length (js_sort cmp xs) = length xs"
  by (induction xs) simp_all






lemma agg_inv_keys: "agg_inv ns seen m \<Longrightarrow> \<forall>p \<in> set m. flowKey ns (snd p) = fst p"
  by (auto simp add: agg_inv_def)




section \<open>Properties of the history windows\<close>

lemma run_Nil [simp]: "run ns t0 [] = init_state t0"
  by (simp add: run_def)

lemma run_snoc [simp]: "run ns t0 (evs @ [ev]) = onmessage ns (run ns t0 evs) ev"
  by (simp add: run_def)







section \<open>Properties of the flow cache\<close>

lemma spread_Nil [simp]: "spread [] f = f"
  by (simp add: spread_def)

lemma mergeEntry_lastSeen [simp]: "get (mergeEntry now ex f) ''lastSeen'' = Num now"
  by (simp add: mergeEntry_def Let_def split: option.splits)

lemma mergeEntry_lat_None: "get (mergeEntry now None f) ''lat'' = get f ''lat''"
  by (simp add: mergeEntry_def Let_def)

lemma mergeEntry_lon_None: "get (mergeEntry now None f) ''lon'' = get f ''lon''"
  by (simp add: mergeEntry_def Let_def)

lemma override_coord:
  "(let m = get (spread e f) k in if isFinite m then m else get e k) =
   (if isFinite (get f k) then get f k else get e k)"
proof (cases "map_of f k")
  case None
  then have "get f k = Undefined" by (simp add: get_def)
  moreover from None have "get (spread e f) k = get e k" by (simp add: get_spread)
  ultimately show ?thesis by (simp add: Let_def)
next
  case (Some v)
  then have "get f k = v" by (simp add: get_def)
  moreover from Some have "get (spread e f) k = v" by (simp add: get_spread)
  ultimately show ?thesis by (simp add: Let_def)
qed

lemma mergeEntry_lat_Some:
  "get (mergeEntry now (Some e) f) ''lat'' = (if isFinite (get f ''lat'') then get f ''lat'' else get e ''lat'')"
proof -
  have "get (mergeEntry now (Some e) f) ''lat'' =
      (let m = get (spread e f) ''lat'' in if isFinite m then m else get e ''lat'')"
    by (simp add: mergeEntry_def Let_def)
  then show ?thesis by (simp only: override_coord)
qed

lemma mergeEntry_lon_Some:
  "get (mergeEntry now (Some e) f) ''lon'' = (if isFinite (get f ''lon'') then get f ''lon'' else get e ''lon'')"
proof -
  have "get (mergeEntry now (Some e) f) ''lon'' =
      (let m = get (spread e f) ''lon'' in if isFinite m then m else get e ''lon'')"
    by (simp add: mergeEntry_def Let_def)
  then show ?thesis by (simp only: override_coord)
qed

lemma mergeEntry_other:
  assumes "k \<noteq> ''lat''" "k \<noteq> ''lon''" "k \<noteq> ''lastSeen''"
  shows "get (mergeEntry now ex f) k = get (spread (case ex of None \<Rightarrow> [] | Some e \<Rightarrow> e) f) k"
  using assms by (cases ex) (simp_all add: mergeEntry_def Let_def)

lemma set_update_cases:
  "(k', v') \<in> set (AList.update k v al) \<Longrightarrow> (k' = k \<and> v' = v) \<or> (k', v') \<in> set al"
  by (induction al) (auto split: if_splits)

lemma mergeFlow_map_of:
  "map_of (mergeFlow ns now c f) =
     (map_of c)(cacheKey ns f \<mapsto> mergeEntry now (map_of c (cacheKey ns f)) f)"
  by (simp add: mergeFlow_def Let_def update_conv')

lemma mergeFlow_distinct: "distinct (map fst c) \<Longrightarrow> distinct (map fst (mergeFlow ns now c f))"
  by (simp add: mergeFlow_def Let_def distinct_update)

lemma mergeFlow_entries:
  assumes "(k, v) \<in> set (mergeFlow ns now c f)"
  shows "(k = cacheKey ns f \<and> v = mergeEntry now (map_of c (cacheKey ns f)) f) \<or> (k, v) \<in> set c"
  using assms set_update_cases [of k v "cacheKey ns f" _ c]
  by (simp add: mergeFlow_def Let_def)

lemma foldl_mergeFlow_distinct:
  "distinct (map fst c) \<Longrightarrow> distinct (map fst (foldl (mergeFlow ns now) c fs))"
  by (induction fs arbitrary: c) (simp_all add: mergeFlow_distinct)

lemma prune_distinct: "distinct (map fst c) \<Longrightarrow> distinct (map fst (prune now c))"
  by (simp add: prune_def distinct_map_filter)


lemma expired_Num: "get v ''lastSeen'' = Num t \<Longrightarrow> expired now v \<longleftrightarrow> MAP_LINGER_MS < now - t"
  by (simp add: expired_def Let_def js_or_def)







lemmas cache_eval =
  run_def init_state_def onmessage_def updateFlowCache_def mergeFlow_def mergeEntry_def cacheKey_def
  prune_def expired_def flowsOf_def js_or_def Let_def snapshot1_def snapshot2_def
  flowA_def flowC_def pendingA_def spread_def MAP_LINGER_MS_def


lemma paired_mergeEntry:
  assumes "paired f" "\<And>e. ex = Some e \<Longrightarrow> paired e"
  shows "paired (mergeEntry now ex f)"
proof (cases ex)
  case None
  with assms(1) show ?thesis
    by (simp add: paired_def mergeEntry_lat_None mergeEntry_lon_None)
next
  case (Some e)
  with assms(2) have "paired e" by simp
  with assms(1) Some show ?thesis
    by (simp add: paired_def mergeEntry_lat_Some mergeEntry_lon_Some)
qed

lemma paired_mergeFlow:
  assumes "\<forall>p \<in> set c. paired (snd p)" "paired f"
  shows "\<forall>p \<in> set (mergeFlow ns now c f). paired (snd p)"
proof
  fix p assume p: "p \<in> set (mergeFlow ns now c f)"
  obtain k v where kv: "p = (k, v)" by (cases p)
  from p kv mergeFlow_entries [of k v ns now c f]
  consider "v = mergeEntry now (map_of c (cacheKey ns f)) f" | "(k, v) \<in> set c" by blast
  then show "paired (snd p)"
  proof cases
    case 1
    have "paired e" if "map_of c (cacheKey ns f) = Some e" for e
      using assms(1) map_of_SomeD [OF that] by fastforce
    with assms(2) 1 kv show ?thesis by (simp add: paired_mergeEntry)
  next
    case 2
    with assms(1) kv show ?thesis by fastforce
  qed
qed

lemma paired_foldl:
  "\<forall>p \<in> set c. paired (snd p) \<Longrightarrow> \<forall>f \<in> set fs. paired f \<Longrightarrow>
   \<forall>p \<in> set (foldl (mergeFlow ns now) c fs). paired (snd p)"
proof (induction fs arbitrary: c)
  case Nil
  then show ?case by simp
next
  case (Cons f fs)
  from Cons.prems have "\<forall>p \<in> set (mergeFlow ns now c f). paired (snd p)"
    by (intro paired_mergeFlow) simp_all
  with Cons.IH [of "mergeFlow ns now c f"] Cons.prems(2) show ?case by simp
qed

lemma paired_update:
  "\<forall>p \<in> set c. paired (snd p) \<Longrightarrow> \<forall>f \<in> set fs. paired f \<Longrightarrow>
   \<forall>p \<in> set (updateFlowCache ns now fs c). paired (snd p)"
  using paired_foldl [of c fs ns now] by (auto simp add: updateFlowCache_def prune_def)

lemma paired_run:
  "\<forall>ev \<in> set evs. \<forall>f \<in> set (flowsOf (ev_data ev)). paired f \<Longrightarrow>
   \<forall>p \<in> set (flowCache (run ns t0 evs)). paired (snd p)"
proof (induction evs rule: rev_induct)
  case Nil
  then show ?case by (simp add: init_state_def)
next
  case (snoc ev evs)
  then have "\<forall>p \<in> set (flowCache (run ns t0 evs)). paired (snd p)" by simp
  moreover from snoc.prems have "\<forall>f \<in> set (flowsOf (ev_data ev)). paired f" by simp
  ultimately show ?case
    using paired_update [of "flowCache (run ns t0 evs)" "flowsOf (ev_data ev)" ns "ev_now ev"]
    by (simp add: onmessage_def)
qed

lemma coordinates_kept_foldl:
  assumes "map_of c k = Some v" "get v ''lat'' = Num a" "get v ''lon'' = Num b"
    and "\<forall>f \<in> set fs. cacheKey ns f = k \<longrightarrow> \<not> isFinite (get f ''lat'') \<and> \<not> isFinite (get f ''lon'')"
  shows "\<exists>v'. map_of (foldl (mergeFlow ns now) c fs) k = Some v'
      \<and> get v' ''lat'' = Num a \<and> get v' ''lon'' = Num b
      \<and> ((\<exists>f \<in> set fs. cacheKey ns f = k) \<or> get v ''lastSeen'' = Num now \<longrightarrow> get v' ''lastSeen'' = Num now)"
  using assms
proof (induction fs arbitrary: c v)
  case Nil
  then show ?case by simp
next
  case (Cons f fs)
  show ?case
  proof (cases "cacheKey ns f = k")
    case True
    let ?v = "mergeEntry now (Some v) f"
    from True Cons.prems have nf: "\<not> isFinite (get f ''lat'')" "\<not> isFinite (get f ''lon'')" by simp_all
    have m: "map_of (mergeFlow ns now c f) k = Some ?v"
      using True Cons.prems(1) by (simp add: mergeFlow_map_of)
    have "get ?v ''lat'' = Num a" "get ?v ''lon'' = Num b" "get ?v ''lastSeen'' = Num now"
      using nf Cons.prems(2,3) by (simp_all add: mergeEntry_lat_Some mergeEntry_lon_Some)
    from Cons.IH [OF m this(1,2)] Cons.prems(4) this(3) show ?thesis by auto
  next
    case False
    then have m: "map_of (mergeFlow ns now c f) k = Some v"
      using Cons.prems(1) by (simp add: mergeFlow_map_of)
    from Cons.IH [OF m Cons.prems(2,3)] Cons.prems(4) False show ?thesis by auto
  qed
qed

lemma map_of_prune:
  "map_of c k = Some v \<Longrightarrow> \<not> expired now v \<Longrightarrow> map_of (prune now c) k = Some v"
  unfolding prune_def by (rule map_of_filter_in) simp_all

lemma not_expired_now: "get v ''lastSeen'' = Num now \<Longrightarrow> \<not> expired now v"
  by (simp add: expired_Num MAP_LINGER_MS_def)

lemma coordinates_kept:
  assumes "map_of c k = Some v" "get v ''lat'' = Num a" "get v ''lon'' = Num b"
    and "\<exists>f \<in> set fs. cacheKey ns f = k"
    and "\<forall>f \<in> set fs. cacheKey ns f = k \<longrightarrow> \<not> isFinite (get f ''lat'') \<and> \<not> isFinite (get f ''lon'')"
  shows "\<exists>v'. map_of (updateFlowCache ns now fs c) k = Some v'
      \<and> get v' ''lat'' = Num a \<and> get v' ''lon'' = Num b"
proof -
  from coordinates_kept_foldl [OF assms(1,2,3,5), of now] assms(4) obtain v' where
    v': "map_of (foldl (mergeFlow ns now) c fs) k = Some v'" "get v' ''lat'' = Num a"
      "get v' ''lon'' = Num b" "get v' ''lastSeen'' = Num now"
    by blast
  from map_of_prune [OF v'(1) not_expired_now [OF v'(4)]] v'(2,3) show ?thesis
    by (auto simp add: updateFlowCache_def)
qed

text \<open>
  C4. When every flow of every message has \<open>lat\<close> and \<open>lon\<close> both finite or both not, then
  after any sequence of messages every cached entry has \<open>lat\<close> finite exactly when \<open>lon\<close>
  is. Moreover, when a key is cached with finite coordinates and the next message's
  flows of that key all come without finite coordinates, the entry of the key keeps its
  \<open>lat\<close> and \<open>lon\<close> after the message.
\<close>

theorem cache_coordinates:
  assumes "\<forall>ev \<in> set (evs @ [ev']). \<forall>f \<in> set (flowsOf (ev_data ev)). paired f"
  shows "(\<forall>p \<in> set (flowCache (run ns t0 (evs @ [ev']))). paired (snd p))
    \<and> (\<forall>k v a b. map_of (flowCache (run ns t0 evs)) k = Some v
           \<and> get v ''lat'' = Num a \<and> get v ''lon'' = Num b
           \<and> (\<exists>f \<in> set (flowsOf (ev_data ev')). cacheKey ns f = k)
           \<and> (\<forall>f \<in> set (flowsOf (ev_data ev')). cacheKey ns f = k \<longrightarrow>
                 \<not> isFinite (get f ''lat'') \<and> \<not> isFinite (get f ''lon''))
         \<longrightarrow> (\<exists>v'. map_of (flowCache (run ns t0 (evs @ [ev']))) k = Some v'
                \<and> get v' ''lat'' = Num a \<and> get v' ''lon'' = Num b))"
proof -
  have one: "\<forall>p \<in> set (flowCache (run ns t0 (evs @ [ev']))). paired (snd p)"
    using assms by (rule paired_run)
  have two: "\<exists>v'. map_of (flowCache (run ns t0 (evs @ [ev']))) k = Some v'
                \<and> get v' ''lat'' = Num a \<and> get v' ''lon'' = Num b"
    if "map_of (flowCache (run ns t0 evs)) k = Some v" "get v ''lat'' = Num a" "get v ''lon'' = Num b"
       "\<exists>f \<in> set (flowsOf (ev_data ev')). cacheKey ns f = k"
       "\<forall>f \<in> set (flowsOf (ev_data ev')). cacheKey ns f = k \<longrightarrow>
                 \<not> isFinite (get f ''lat'') \<and> \<not> isFinite (get f ''lon'')" for k v a b
    using coordinates_kept [OF that, of "ev_now ev'"] by (simp add: onmessage_def)
  from one two show ?thesis by blast
qed

theorem cache_coordinates_witness:
  "\<exists>v'. map_of (flowCache (run intFormat 0 ([snapshot1] @ [snapshot2]))) ''outbound-203.0.113.5'' = Some v'
        \<and> get v' ''lat'' = Num 40.7 \<and> get v' ''lon'' = Num (- 74) \<and> paired v'"
proof -
  have h: "\<forall>ev \<in> set ([snapshot1] @ [snapshot2]). \<forall>f \<in> set (flowsOf (ev_data ev)). paired f"
    by (simp add: paired_def flowsOf_def snapshot1_def snapshot2_def flowA_def flowC_def pendingA_def)
  have c: "\<exists>v. map_of (flowCache (run intFormat 0 [snapshot1])) ''outbound-203.0.113.5'' = Some v
      \<and> get v ''lat'' = Num 40.7 \<and> get v ''lon'' = Num (- 74)"
    by (simp add: cache_eval)
  have f: "\<exists>f \<in> set (flowsOf (ev_data snapshot2)). cacheKey intFormat f = ''outbound-203.0.113.5''"
    by (simp add: cache_eval)
  have n: "\<forall>f \<in> set (flowsOf (ev_data snapshot2)). cacheKey intFormat f = ''outbound-203.0.113.5'' \<longrightarrow>
       \<not> isFinite (get f ''lat'') \<and> \<not> isFinite (get f ''lon'')"
    by (simp add: cache_eval)
  from cache_coordinates [OF h, of intFormat 0] c f n
  obtain v' where v': "map_of (flowCache (run intFormat 0 ([snapshot1] @ [snapshot2]))) ''outbound-203.0.113.5'' = Some v'"
    "get v' ''lat'' = Num 40.7" "get v' ''lon'' = Num (- 74)"
    by blast
  from map_of_SomeD [OF v'(1)] cache_coordinates [OF h, of intFormat 0] have "paired v'"
    by fastforce
  with v' show ?thesis by blast
qed












section \<open>Flow identity\<close>

lemma cacheKey_identity:
  "identity f = identity g \<Longrightarrow> cacheKey ns f = cacheKey ns g"
  by (simp add: identity_def cacheKey_def)

lemma key_inj:
  assumes "flow_record f" "flow_record g"
  shows "flowKey ns f = flowKey ns g \<longleftrightarrow> identity f = identity g"
  using assms by (auto simp add: flow_record_def flowKey_def identity_def)

lemma cacheKey_record: "flow_record f \<Longrightarrow> cacheKey ns f = flowKey ns f"
  by (auto simp add: flow_record_def cacheKey_def flowKey_def js_or_def Let_def)

lemma cache_key_inj:
  assumes "flow_record f" "flow_record g"
  shows "cacheKey ns f = cacheKey ns g \<longleftrightarrow> identity f = identity g"
  using assms by (simp add: cacheKey_record key_inj)

lemma identity_accumulate [simp]: "identity (accumulate c f) = identity c"
  by (simp add: accumulate_def Let_def identity_def)

lemma identity_newEntry [simp]: "identity (newEntry f) = identity f"
  by (simp add: newEntry_def identity_def get_spread)

lemma agg_source_step:
  assumes "\<forall>k e. map_of m k = Some e \<longrightarrow> (\<exists>f \<in> set seen. drawable f \<and> flowKey ns f = k \<and> identity e = identity f)"
  shows "\<forall>k e. map_of (aggregateStep ns m g) k = Some e \<longrightarrow>
           (\<exists>f \<in> set (seen @ [g]). drawable f \<and> flowKey ns f = k \<and> identity e = identity f)"
proof (cases "drawable g")
  case False
  with assms show ?thesis by (auto simp add: aggregateStep_skip simp del: map_of_eq_Some_iff)
next
  case True
  show ?thesis
  proof (intro allI impI)
    fix k e assume e: "map_of (aggregateStep ns m g) k = Some e"
    show "\<exists>f \<in> set (seen @ [g]). drawable f \<and> flowKey ns f = k \<and> identity e = identity f"
    proof (cases "k = flowKey ns g")
      case k: True
      show ?thesis
      proof (cases "map_of m (flowKey ns g)")
        case None
        with e k True have "identity e = identity g"
          by (auto simp add: aggregateStep_drawable update_conv')
        with True k show ?thesis by auto
      next
        case (Some c)
        with e k True have "identity e = identity c"
          by (auto simp add: aggregateStep_drawable update_conv')
        moreover from assms Some obtain f where "f \<in> set seen" "drawable f" "flowKey ns f = flowKey ns g" "identity c = identity f"
          by blast
        ultimately show ?thesis using k by auto
      qed
    next
      case False
      with e True have "map_of m k = Some e"
        by (simp add: aggregateStep_drawable update_conv')
      with assms show ?thesis by fastforce
    qed
  qed
qed

lemma agg_source_foldl:
  "\<forall>k e. map_of m k = Some e \<longrightarrow> (\<exists>f \<in> set seen. drawable f \<and> flowKey ns f = k \<and> identity e = identity f) \<Longrightarrow>
   \<forall>k e. map_of (foldl (aggregateStep ns) m flows) k = Some e \<longrightarrow>
      (\<exists>f \<in> set (seen @ flows). drawable f \<and> flowKey ns f = k \<and> identity e = identity f)"
proof (induction flows arbitrary: seen m)
  case Nil
  then show ?case by simp
next
  case (Cons g flows)
  from Cons.IH [OF agg_source_step [OF Cons.prems, of g]] show ?case by simp
qed

lemma agg_source:
  "map_of (foldl (aggregateStep ns) [] flows) k = Some e \<Longrightarrow>
   \<exists>f \<in> set flows. drawable f \<and> flowKey ns f = k \<and> identity e = identity f"
  using agg_source_foldl [of "[]" "[]" ns flows] by simp

lemma distinct_by_key:
  assumes "distinct (map fst m)" "\<forall>p \<in> set m. key (ident (snd p)) = fst p"
  shows "distinct (map ident (map snd m))"
proof -
  have eq: "map key (map (ident \<circ> snd) m) = map fst m"
    using assms(2) by (induction m) auto
  have "distinct (map key (map (ident \<circ> snd) m))"
    using assms(1) by (simp only: eq)
  then have "distinct (map (ident \<circ> snd) m)" by (simp only: distinct_map)
  then show ?thesis by simp
qed

lemma key_of_identity: "key_of ns (identity f) = flowKey ns f"
  by (simp add: key_of_def identity_def flowKey_def)

lemma aggregate_identities_distinct: "distinct (map identity (aggregateFlows ns flows))"
proof -
  let ?m = "foldl (aggregateStep ns) [] flows"
  have inv: "agg_inv ns flows ?m" by (rule agg_inv_all)
  then have "distinct (map fst ?m)" by (simp add: agg_inv_def)
  moreover have "\<forall>p \<in> set ?m. key_of ns (identity (snd p)) = fst p"
    using agg_inv_keys [OF inv] by (simp add: key_of_identity)
  ultimately have "distinct (map identity (map snd ?m))" by (rule distinct_by_key)
  moreover have "mset (aggregateFlows ns flows) = mset (map snd ?m)"
    by (simp add: aggregateFlows_def)
  then have "mset (map identity (aggregateFlows ns flows)) = mset (map identity (map snd ?m))"
    by (simp only: mset_map)
  ultimately show ?thesis by (metis mset_eq_imp_distinct_iff)
qed

lemma aggregate_identities_set:
  assumes "\<forall>f \<in> set flows. flow_record f"
  shows "set (map identity (aggregateFlows ns flows)) = identity ` {f \<in> set flows. drawable f}"
proof -
  let ?m = "foldl (aggregateStep ns) [] flows"
  have inv: "agg_inv ns flows ?m" by (rule agg_inv_all)
  have d: "distinct (map fst ?m)" using inv by (simp add: agg_inv_def)
  have "identity e \<in> identity ` {f \<in> set flows. drawable f}" if "e \<in> snd ` set ?m" for e
  proof -
    from that d obtain k where "map_of ?m k = Some e" by force
    from agg_source [OF this] show ?thesis by auto
  qed
  moreover have "identity f \<in> identity ` snd ` set ?m" if "f \<in> set flows" "drawable f" for f
  proof -
    from inv that obtain e where e: "map_of ?m (flowKey ns f) = Some e"
      by (auto simp add: agg_inv_def simp del: map_of_eq_Some_iff)
    from agg_source [OF e] obtain g where g: "g \<in> set flows" "flowKey ns g = flowKey ns f" "identity e = identity g"
      by blast
    with assms that(1) have "identity g = identity f" by (simp add: key_inj)
    with g(3) have "identity f = identity (snd (flowKey ns f, e))" by simp
    moreover have "(flowKey ns f, e) \<in> set ?m" by (rule map_of_SomeD [OF e])
    ultimately show ?thesis by (metis imageI)
  qed
  ultimately have "identity ` snd ` set ?m = identity ` {f \<in> set flows. drawable f}" by blast
  then show ?thesis by (simp add: aggregateFlows_def image_image)
qed






lemma flow_record_cong: "identity a = identity b \<Longrightarrow> flow_record a = flow_record b"
  by (simp add: identity_def flow_record_def)

lemma get_Some: "get f k \<noteq> Undefined \<Longrightarrow> map_of f k = Some (get f k)"
  by (cases "map_of f k") (simp_all add: get_def)

lemma get_spread_present: "get f k \<noteq> Undefined \<Longrightarrow> get (spread e f) k = get f k"
  by (simp add: get_spread get_Some)

lemma mergeEntry_identity:
  assumes "flow_record f"
  shows "identity (mergeEntry now ex f) = identity f"
proof -
  from assms have "get f ''direction'' \<noteq> Undefined" "get f ''ip'' \<noteq> Undefined"
    by (auto simp add: flow_record_def)
  then show ?thesis
    by (simp add: identity_def mergeEntry_other get_spread_present)
qed

lemma keyed_mergeFlow:
  assumes "keyed ns c" "flow_record f"
  shows "keyed ns (mergeFlow ns now c f)"
  unfolding keyed_def
proof
  fix p assume p: "p \<in> set (mergeFlow ns now c f)"
  obtain k v where kv: "p = (k, v)" by (cases p)
  from p kv mergeFlow_entries [of k v ns now c f]
  consider "k = cacheKey ns f" "v = mergeEntry now (map_of c (cacheKey ns f)) f" | "(k, v) \<in> set c" by blast
  then show "flow_record (snd p) \<and> fst p = cacheKey ns (snd p)"
  proof cases
    case 1
    have i: "identity v = identity f" unfolding 1(2) by (rule mergeEntry_identity [OF assms(2)])
    from flow_record_cong [OF i] cacheKey_identity [OF i] assms(2) 1(1) kv show ?thesis by simp
  next
    case 2
    with assms(1) kv show ?thesis by (fastforce simp add: keyed_def)
  qed
qed

lemma keyed_foldl:
  "keyed ns c \<Longrightarrow> \<forall>f \<in> set fs. flow_record f \<Longrightarrow> keyed ns (foldl (mergeFlow ns now) c fs)"
  by (induction fs arbitrary: c) (simp_all add: keyed_mergeFlow)

lemma keyed_prune: "keyed ns c \<Longrightarrow> keyed ns (prune now c)"
  by (auto simp add: keyed_def prune_def)

lemma keyed_run:
  "\<forall>ev \<in> set evs. \<forall>f \<in> set (flowsOf (ev_data ev)). flow_record f \<Longrightarrow>
   keyed ns (flowCache (run ns t0 evs))"
proof (induction evs rule: rev_induct)
  case Nil
  then show ?case by (simp add: init_state_def keyed_def)
next
  case (snoc ev evs)
  then have "keyed ns (flowCache (run ns t0 evs))" by simp
  moreover from snoc.prems have "\<forall>f \<in> set (flowsOf (ev_data ev)). flow_record f" by simp
  ultimately show ?case
    by (simp add: onmessage_def updateFlowCache_def keyed_prune keyed_foldl)
qed

lemma distinct_run: "distinct (map fst (flowCache (run ns t0 evs)))"
  by (induction evs rule: rev_induct)
     (simp_all add: init_state_def onmessage_def updateFlowCache_def prune_distinct foldl_mergeFlow_distinct)

lemma touched_persists:
  "map_of c k = Some v \<Longrightarrow> get v ''lastSeen'' = Num now \<Longrightarrow>
   \<exists>v'. map_of (foldl (mergeFlow ns now) c fs) k = Some v' \<and> get v' ''lastSeen'' = Num now"
proof (induction fs arbitrary: c v)
  case Nil
  then show ?case by simp
next
  case (Cons f fs)
  have "\<exists>w. map_of (mergeFlow ns now c f) k = Some w \<and> get w ''lastSeen'' = Num now"
    using Cons.prems by (simp add: mergeFlow_map_of)
  then obtain w where "map_of (mergeFlow ns now c f) k = Some w" "get w ''lastSeen'' = Num now"
    by blast
  from Cons.IH [OF this] show ?case by simp
qed

lemma touched:
  "f \<in> set fs \<Longrightarrow>
   \<exists>v. map_of (foldl (mergeFlow ns now) c fs) (cacheKey ns f) = Some v \<and> get v ''lastSeen'' = Num now"
proof (induction fs arbitrary: c)
  case Nil
  then show ?case by simp
next
  case (Cons g fs)
  show ?case
  proof (cases "f \<in> set fs")
    case True
    from Cons.IH [OF True, of "mergeFlow ns now c g"] show ?thesis by simp
  next
    case False
    with Cons.prems have "g = f" by simp
    then have "map_of (mergeFlow ns now c g) (cacheKey ns f) = Some (mergeEntry now (map_of c (cacheKey ns f)) f)"
      by (simp add: mergeFlow_map_of)
    from touched_persists [OF this mergeEntry_lastSeen, of ns fs] show ?thesis by simp
  qed
qed

lemma cached_after_update:
  assumes "f \<in> set fs"
  shows "\<exists>v. map_of (updateFlowCache ns now fs c) (cacheKey ns f) = Some v"
proof -
  from touched [OF assms, of ns now c] obtain v where
    v: "map_of (foldl (mergeFlow ns now) c fs) (cacheKey ns f) = Some v" "get v ''lastSeen'' = Num now"
    by blast
  from map_of_prune [OF v(1) not_expired_now [OF v(2)]] show ?thesis
    by (auto simp add: updateFlowCache_def)
qed

lemma cache_key_of_identity: "cache_key_of ns (identity f) = cacheKey ns f"
  by (simp add: cache_key_of_def identity_def cacheKey_def Let_def)

lemma cache_identities_distinct:
  assumes "\<forall>ev \<in> set evs. \<forall>f \<in> set (flowsOf (ev_data ev)). flow_record f"
  shows "distinct (map identity (map snd (flowCache (run ns t0 evs))))"
proof -
  have "\<forall>p \<in> set (flowCache (run ns t0 evs)). cache_key_of ns (identity (snd p)) = fst p"
    using keyed_run [OF assms, of ns t0] by (simp add: keyed_def cache_key_of_identity)
  with distinct_run show ?thesis by (rule distinct_by_key)
qed

lemma cache_holds_flow:
  assumes "\<forall>ev \<in> set (evs @ [ev']). \<forall>f \<in> set (flowsOf (ev_data ev)). flow_record f"
    and "f \<in> set (flowsOf (ev_data ev'))"
  shows "\<exists>v. map_of (flowCache (run ns t0 (evs @ [ev']))) (cacheKey ns f) = Some v \<and> identity v = identity f"
proof -
  let ?c = "flowCache (run ns t0 (evs @ [ev']))"
  have "?c = updateFlowCache ns (ev_now ev') (flowsOf (ev_data ev')) (flowCache (run ns t0 evs))"
    by (simp add: onmessage_def)
  with cached_after_update [OF assms(2), of ns "ev_now ev'" "flowCache (run ns t0 evs)"]
  obtain v where v: "map_of ?c (cacheKey ns f) = Some v"
    by auto
  from keyed_run [OF assms(1), of ns t0] map_of_SomeD [OF v]
  have "flow_record v" "cacheKey ns f = cacheKey ns v"
    by (auto simp add: keyed_def)
  moreover from assms have "flow_record f" by simp
  ultimately have "identity v = identity f" by (simp add: cache_key_inj)
  with v show ?thesis by blast
qed

text \<open>
  C2, as amended. For flow records (direction \<open>"outbound"\<close> or \<open>"inbound"\<close>, ip a
  non-empty string): two records have the same key exactly when they agree on direction
  and ip; \<open>aggregateFlows\<close> returns one entry for each identity that occurs among the
  records with finite coordinates (a record without them is skipped), and no two entries
  share an identity; after a message the flow cache holds an entry under the key of every
  record of the message, carrying the record's identity, and no two cached entries share
  an identity. So one ip seen outbound and inbound gives two entries in the cache, and in
  the aggregation when both records have finite coordinates.
\<close>

theorem flow_identity:
  assumes "\<forall>f \<in> set flows. flow_record f"
    and "\<forall>ev \<in> set (evs @ [ev']). \<forall>f \<in> set (flowsOf (ev_data ev)). flow_record f"
  shows "(\<forall>f \<in> set flows. \<forall>g \<in> set flows. flowKey ns f = flowKey ns g \<longleftrightarrow> identity f = identity g)
     \<and> distinct (map identity (aggregateFlows ns flows))
     \<and> set (map identity (aggregateFlows ns flows)) = identity ` {f \<in> set flows. drawable f}
     \<and> (\<forall>f \<in> set (flowsOf (ev_data ev')). \<forall>g \<in> set (flowsOf (ev_data ev')).
           cacheKey ns f = cacheKey ns g \<longleftrightarrow> identity f = identity g)
     \<and> distinct (map identity (map snd (flowCache (run ns t0 (evs @ [ev'])))))
     \<and> (\<forall>f \<in> set (flowsOf (ev_data ev')).
           \<exists>v. map_of (flowCache (run ns t0 (evs @ [ev']))) (cacheKey ns f) = Some v
                \<and> identity v = identity f)"
proof -
  have a: "\<forall>f \<in> set flows. \<forall>g \<in> set flows. flowKey ns f = flowKey ns g \<longleftrightarrow> identity f = identity g"
    using assms(1) by (simp add: key_inj)
  have b: "distinct (map identity (aggregateFlows ns flows))"
    by (rule aggregate_identities_distinct)
  have c: "set (map identity (aggregateFlows ns flows)) = identity ` {f \<in> set flows. drawable f}"
    using assms(1) by (rule aggregate_identities_set)
  have d: "\<forall>f \<in> set (flowsOf (ev_data ev')). \<forall>g \<in> set (flowsOf (ev_data ev')).
           cacheKey ns f = cacheKey ns g \<longleftrightarrow> identity f = identity g"
    using assms(2) by (simp add: cache_key_inj)
  have e: "distinct (map identity (map snd (flowCache (run ns t0 (evs @ [ev'])))))"
    using assms(2) by (rule cache_identities_distinct)
  have f: "\<forall>f \<in> set (flowsOf (ev_data ev')).
           \<exists>v. map_of (flowCache (run ns t0 (evs @ [ev']))) (cacheKey ns f) = Some v
                \<and> identity v = identity f"
    using cache_holds_flow [OF assms(2)] by blast
  from a b c d e f show ?thesis by blast
qed

theorem flow_identity_witness:
  "distinct (map identity (aggregateFlows intFormat [flowA, flowC, flowB]))
   \<and> set (map identity (aggregateFlows intFormat [flowA, flowC, flowB])) =
       {(Str ''outbound'', Str ''203.0.113.5''), (Str ''inbound'', Str ''203.0.113.5'')}
   \<and> distinct (map identity (map snd (flowCache (run intFormat 0 ([snapshot1] @ [snapshot2])))))
   \<and> (\<exists>v. map_of (flowCache (run intFormat 0 ([snapshot1] @ [snapshot2]))) ''outbound-203.0.113.5'' = Some v
          \<and> identity v = (Str ''outbound'', Str ''203.0.113.5''))"
proof -
  have h1: "\<forall>f \<in> set [flowA, flowC, flowB]. flow_record f"
    by (simp add: flow_record_def flowA_def flowB_def flowC_def)
  have h2: "\<forall>ev \<in> set ([snapshot1] @ [snapshot2]). \<forall>f \<in> set (flowsOf (ev_data ev)). flow_record f"
    by (simp add: flow_record_def flowsOf_def snapshot1_def snapshot2_def flowA_def flowC_def pendingA_def)
  have "map identity (filter drawable [flowA, flowC, flowB]) =
      [(Str ''outbound'', Str ''203.0.113.5''), (Str ''inbound'', Str ''203.0.113.5''),
       (Str ''outbound'', Str ''203.0.113.5'')]"
    by (simp add: identity_def drawable_def flowA_def flowB_def flowC_def)
  then have "set (map identity (filter drawable [flowA, flowC, flowB])) =
      {(Str ''outbound'', Str ''203.0.113.5''), (Str ''inbound'', Str ''203.0.113.5'')}"
    by (simp only: list.set) auto
  moreover have "identity ` {f \<in> set [flowA, flowC, flowB]. drawable f} =
      set (map identity (filter drawable [flowA, flowC, flowB]))"
    by (simp only: set_map set_filter)
  ultimately have i: "identity ` {f \<in> set [flowA, flowC, flowB]. drawable f} =
      {(Str ''outbound'', Str ''203.0.113.5''), (Str ''inbound'', Str ''203.0.113.5'')}"
    by simp
  have m: "pendingA \<in> set (flowsOf (ev_data snapshot2))"
    by (simp add: flowsOf_def snapshot2_def)
  have k: "cacheKey intFormat pendingA = ''outbound-203.0.113.5''" "identity pendingA = (Str ''outbound'', Str ''203.0.113.5'')"
    by (simp_all add: cacheKey_def js_or_def pendingA_def identity_def)
  from flow_identity [OF h1 h2, of intFormat 0] m show ?thesis
    unfolding i k [symmetric] by blast
qed

text \<open>
  C2 as the specification states it fails in the map aggregation: an outbound and an
  inbound record of one ip that have no coordinates yet produce no entry at all.
\<close>

theorem flow_identity_counterexample:
  "get pendingA ''ip'' = get pendingIn ''ip''
   \<and> get pendingA ''direction'' = Str ''outbound'' \<and> get pendingIn ''direction'' = Str ''inbound''
   \<and> aggregateFlows intFormat [pendingA, pendingIn] = []"
  by (simp add: pendingA_def pendingIn_def aggregateFlows_def aggregateStep_def)

section \<open>Properties of the energy gauge\<close>

lemma n_le_Fin [simp]: "n_le (Fin x) (Fin y) \<longleftrightarrow> x \<le> y"
  by (auto simp add: n_le_def)

lemma percent_Num: "percent (Num x) = Num (min 1 (max 0 (x / 30)))"
  by (auto simp add: percent_def safeWattage_def clamp_def Math_min_def Math_max_def js_div_def
      n_min_def n_max_def ENERGY_MAX_WATTS_def min_def max_def)

lemma percent_unavailable: "\<not> isFinite w \<Longrightarrow> percent w = Num 0"
  by (simp add: percent_def safeWattage_def clamp_def Math_min_def Math_max_def js_div_def
      n_min_def n_max_def ENERGY_MAX_WATTS_def)

lemma gaugeLabel_Num:
  "gaugeLabel (Num x) = (if x \<le> 6 then ''Low'' else if x \<le> 15 then ''Moderate'' else ''High'')"
  by (simp add: gaugeLabel_def safeWattage_def)

lemma gaugeLabel_unavailable: "\<not> isFinite w \<Longrightarrow> gaugeLabel w = ''Unavailable''"
  by (simp add: gaugeLabel_def)

text \<open>
  C10. The label of the energy gauge is a partition of all inputs: \<open>"Unavailable"\<close> exactly
  when the wattage is not a finite number, \<open>"Low"\<close> exactly when it is finite and at most 6,
  \<open>"Moderate"\<close> exactly when it is above 6 and at most 15, \<open>"High"\<close> exactly when it is above
  15. The fill fraction \<open>percent\<close> is the wattage divided by 30, clamped into \<open>[0, 1]\<close>, and
  0 when the wattage is not a finite number.
\<close>

theorem energy_gauge_partition:
  "(gaugeLabel w = ''Unavailable'' \<longleftrightarrow> \<not> isFinite w)
   \<and> (gaugeLabel w = ''Low'' \<longleftrightarrow> (\<exists>x. w = Num x \<and> x \<le> 6))
   \<and> (gaugeLabel w = ''Moderate'' \<longleftrightarrow> (\<exists>x. w = Num x \<and> 6 < x \<and> x \<le> 15))
   \<and> (gaugeLabel w = ''High'' \<longleftrightarrow> (\<exists>x. w = Num x \<and> 15 < x))
   \<and> (\<forall>x. w = Num x \<longrightarrow> percent w = Num (min 1 (max 0 (x / 30))))
   \<and> (\<not> isFinite w \<longrightarrow> percent w = Num 0)"
proof (cases "isFinite w")
  case True
  then obtain x where x: "w = Num x" by (auto simp add: isFinite_iff)
  show ?thesis unfolding x by (simp add: gaugeLabel_Num percent_Num)
next
  case False
  then have "\<And>x. w \<noteq> Num x" by auto
  with False show ?thesis
    by (simp add: gaugeLabel_unavailable percent_unavailable)
qed

theorem energy_gauge_partition_witness:
  "gaugeLabel (Num 4) = ''Low'' \<and> gaugeLabel (Num 6) = ''Low'' \<and> gaugeLabel (Num 10) = ''Moderate''
   \<and> gaugeLabel (Num 45) = ''High'' \<and> gaugeLabel Null = ''Unavailable''
   \<and> percent (Num 45) = Num 1 \<and> percent (Num 15) = Num (1 / 2) \<and> percent Undefined = Num 0"
  using energy_gauge_partition [of "Num 4"] energy_gauge_partition [of "Num 6"]
    energy_gauge_partition [of "Num 10"] energy_gauge_partition [of "Num 45"]
    energy_gauge_partition [of Null] energy_gauge_partition [of "Num 15"]
    energy_gauge_partition [of Undefined]
  by simp

section \<open>Properties of the displayed readings\<close>














section \<open>Properties of the capture summary\<close>









section \<open>Properties of the geolocation resolver\<close>

lemma geo_inv_attach: "geo_inv r \<Longrightarrow> geo_inv (attach c ip r)"
  by (auto simp add: geo_inv_def attach_def update_conv' split: option.splits)

lemma geo_inv_resolve: "geo_inv r \<Longrightarrow> geo_inv (snd (resolve now c ip r))"
  by (auto simp add: resolve_def geo_inv_attach split: option.splits geo_entry.splits)

lemma geo_inv_complete: "geo_inv r \<Longrightarrow> geo_inv (snd (complete cd now ip out r))"
  by (auto simp add: geo_inv_def complete_def delete_conv' split: option.splits)

lemma geo_inv_step: "geo_inv r \<Longrightarrow> geo_inv (geo_step cd r ev)"
  by (cases ev) (simp_all add: geo_inv_resolve geo_inv_complete)

lemma geo_inv_foldl: "geo_inv r \<Longrightarrow> geo_inv (foldl (geo_step cd) r evs)"
  by (induction evs arbitrary: r) (simp_all add: geo_inv_step)

lemma geo_inv_exec: "geo_inv (exec cd evs)"
  unfolding exec_def by (rule geo_inv_foldl) (simp add: geo_inv_def resolver0_def)

lemma outstanding_le_one:
  "count_list (lookups (exec cd evs)) ip \<le> count_list (completed (exec cd evs)) ip + 1"
  using geo_inv_exec [of cd evs] by (simp add: geo_inv_def)

lemma resolve_unresolved:
  "map_of (geo_cache r) ip = None \<Longrightarrow> snd (resolve t c ip r) = attach c ip r"
  by (simp add: resolve_def)

lemma attach_cache [simp]: "geo_cache (attach c ip r) = geo_cache r"
  by (simp add: attach_def split: option.splits)

lemma attach_waiting:
  "map_of (in_flight r) ip = Some w \<Longrightarrow>
   lookups (attach c ip r) = lookups r \<and> map_of (in_flight (attach c ip r)) ip = Some (w @ [c])"
  by (simp add: attach_def update_conv')

lemma attach_first:
  "map_of (in_flight r) ip = None \<Longrightarrow>
   lookups (attach c ip r) = lookups r @ [ip] \<and> map_of (in_flight (attach c ip r)) ip = Some [c]"
  by (simp add: attach_def update_conv')

lemma resolve_all_waiting:
  "map_of (geo_cache r) ip = None \<Longrightarrow> map_of (in_flight r) ip = Some w \<Longrightarrow>
   lookups (resolve_all ip r cs) = lookups r
   \<and> map_of (in_flight (resolve_all ip r cs)) ip = Some (w @ map snd cs)"
proof (induction cs arbitrary: r w)
  case Nil
  then show ?case by (simp add: resolve_all_def)
next
  case (Cons tc cs)
  obtain t c where tc: "tc = (t, c)" by (cases tc)
  let ?r = "attach c ip r"
  have "map_of (geo_cache ?r) ip = None" using Cons.prems(1) by simp
  moreover have "map_of (in_flight ?r) ip = Some (w @ [c])" "lookups ?r = lookups r"
    using attach_waiting [OF Cons.prems(2)] by simp_all
  ultimately have "lookups (resolve_all ip ?r cs) = lookups r
     \<and> map_of (in_flight (resolve_all ip ?r cs)) ip = Some ((w @ [c]) @ map snd cs)"
    using Cons.IH [of ?r "w @ [c]"] by simp
  moreover have "resolve_all ip r (tc # cs) = resolve_all ip ?r cs"
    by (simp add: resolve_all_def tc resolve_unresolved [OF Cons.prems(1)])
  ultimately show ?case by (simp add: tc)
qed

lemma resolve_all_first:
  assumes "cs \<noteq> []" "map_of (geo_cache r) ip = None" "map_of (in_flight r) ip = None"
  shows "lookups (resolve_all ip r cs) = lookups r @ [ip]
     \<and> map_of (in_flight (resolve_all ip r cs)) ip = Some (map snd cs)"
proof -
  from assms(1) obtain t c rest where cs: "cs = (t, c) # rest" by (cases cs) auto
  let ?r = "attach c ip r"
  have a: "map_of (geo_cache ?r) ip = None" using assms(2) by simp
  have b: "map_of (in_flight ?r) ip = Some [c]" "lookups ?r = lookups r @ [ip]"
    using attach_first [OF assms(3)] by simp_all
  have "resolve_all ip r cs = resolve_all ip ?r rest"
    by (simp add: resolve_all_def cs resolve_unresolved [OF assms(2)])
  with resolve_all_waiting [OF a b(1), of rest] b(2) show ?thesis by (simp add: cs)
qed

lemma complete_delivers:
  "map_of (in_flight r) ip = Some w \<Longrightarrow>
   fst (complete cd now ip out r) = map (\<lambda>c. (c, entry_of cd now out)) w"
  by (simp add: complete_def)

text \<open>
  C5. On the resolver modelled from the spec: in every run, each address has at most one
  lookup issued and not yet finished; and when \<open>N\<close> callers (\<open>N > 0\<close>) ask, one after the
  other in any order, for an address that is neither cached nor in flight, exactly one
  outbound lookup is issued for them, and its completion hands the same entry to all
  \<open>N\<close> callers.
\<close>

theorem geolocation_coalescing:
  "(\<forall>ip. count_list (lookups (exec cd evs)) ip \<le> count_list (completed (exec cd evs)) ip + 1)
   \<and> (cs \<noteq> [] \<and> map_of (geo_cache (exec cd evs)) ip = None
        \<and> map_of (in_flight (exec cd evs)) ip = None \<longrightarrow>
        lookups (resolve_all ip (exec cd evs) cs) = lookups (exec cd evs) @ [ip]
        \<and> fst (complete cd now ip out (resolve_all ip (exec cd evs) cs)) =
            map (\<lambda>c. (c, entry_of cd now out)) (map snd cs))"
proof -
  have "\<forall>ip. count_list (lookups (exec cd evs)) ip \<le> count_list (completed (exec cd evs)) ip + 1"
    using outstanding_le_one by blast
  moreover have "lookups (resolve_all ip (exec cd evs) cs) = lookups (exec cd evs) @ [ip]
        \<and> fst (complete cd now ip out (resolve_all ip (exec cd evs) cs)) =
            map (\<lambda>c. (c, entry_of cd now out)) (map snd cs)"
    if "cs \<noteq> []" "map_of (geo_cache (exec cd evs)) ip = None" "map_of (in_flight (exec cd evs)) ip = None"
    using resolve_all_first [OF that] complete_delivers by simp
  ultimately show ?thesis by blast
qed

theorem geolocation_coalescing_witness:
  "lookups (resolve_all ''198.51.100.9'' (exec 60 [Resolve 0 7 ''203.0.113.5'']) [(1, 1), (2, 2), (3, 3)])
     = [''203.0.113.5'', ''198.51.100.9'']
   \<and> fst (complete 60 5 ''198.51.100.9'' (Found 1 2 ''CA'')
        (resolve_all ''198.51.100.9'' (exec 60 [Resolve 0 7 ''203.0.113.5'']) [(1, 1), (2, 2), (3, 3)]))
     = [(1, Located 1 2 ''CA''), (2, Located 1 2 ''CA''), (3, Located 1 2 ''CA'')]"
proof -
  have e: "exec 60 [Resolve 0 7 ''203.0.113.5''] =
      \<lparr>geo_cache = [], in_flight = [(''203.0.113.5'', [7])], lookups = [''203.0.113.5''], completed = []\<rparr>"
    by (simp add: exec_def resolver0_def resolve_def attach_def)
  have h: "[(1, 1), (2, 2), (3, 3)] \<noteq> ([] :: (real \<times> nat) list)
      \<and> map_of (geo_cache (exec 60 [Resolve 0 7 ''203.0.113.5''])) ''198.51.100.9'' = None
      \<and> map_of (in_flight (exec 60 [Resolve 0 7 ''203.0.113.5''])) ''198.51.100.9'' = None"
    by (simp add: e)
  from geolocation_coalescing [of 60 "[Resolve 0 7 ''203.0.113.5'']" "[(1, 1), (2, 2), (3, 3)]"
      "''198.51.100.9''" 5 "Found 1 2 ''CA''"] h
  show ?thesis by (simp add: e)
qed

end
